theory Spec2Isabelle
  imports Complex_Main
begin

section \<open>Python strings\<close>

text \<open>
  A Python \<open>str\<close> is modelled as a \<open>string\<close>; a character stands for the code point
  of the same number, so the model covers the code points below 256. Every string the
  format check accepts is ASCII, and the helpers below follow Python on the whole range
  (\<open>str.isspace\<close> and \<open>str.lower\<close> on Latin-1).
\<close>

definition code_point :: "char \<Rightarrow> nat" where
  "code_point c = of_char c"

text \<open>\<open>str.strip()\<close> removes the characters for which \<open>str.isspace\<close> holds.\<close>

definition isspace :: "char \<Rightarrow> bool" where
  "isspace c = (code_point c \<in> set [9, 10, 11, 12, 13, 28, 29, 30, 31, 32, 133, 160])"

definition lstrip :: "string \<Rightarrow> string" where
  "lstrip s = dropWhile isspace s"

definition rstrip :: "string \<Rightarrow> string" where
  "rstrip s = rev (dropWhile isspace (rev s))"

definition strip :: "string \<Rightarrow> string" where
  "strip s = lstrip (rstrip s)"

text \<open>\<open>s.rstrip('.')\<close>: every trailing dot is removed.\<close>

definition rstrip_dot :: "string \<Rightarrow> string" where
  "rstrip_dot s = rev (dropWhile (\<lambda>c. c = CHR ''.'') (rev s))"

text \<open>\<open>str.lower()\<close>: A-Z and the upper-case letters of Latin-1 move up by 32.\<close>

definition lower_char :: "char \<Rightarrow> char" where
  "lower_char c =
     (let n = code_point c
      in if (65 \<le> n \<and> n \<le> 90) \<or> (192 \<le> n \<and> n \<le> 222 \<and> n \<noteq> 215)
         then char_of (n + 32) else c)"

definition lower :: "string \<Rightarrow> string" where
  "lower s = map lower_char s"

text \<open>\<open>s.split(sep)\<close> for a separator of one character: never an empty list.\<close>

fun split :: "char \<Rightarrow> string \<Rightarrow> string list" where
  "split sep [] = [[]]"
| "split sep (c # cs) =
     (if c = sep then [] # split sep cs
      else (case split sep cs of
              [] \<Rightarrow> [[c]]
            | p # ps \<Rightarrow> (c # p) # ps))"

text \<open>\<open>str(n)\<close> and \<open>f"{n}"\<close> for an \<open>int\<close>: decimal digits, a minus sign when negative.\<close>

definition digit_char :: "nat \<Rightarrow> char" where
  "digit_char d = char_of (48 + d)"

fun str_nat :: "nat \<Rightarrow> string" where
  "str_nat n = (if n < 10 then [digit_char n] else str_nat (n div 10) @ [digit_char (n mod 10)])"

declare str_nat.simps [simp del]

definition str_int :: "int \<Rightarrow> string" where
  "str_int i = (if i < 0 then CHR ''-'' # str_nat (nat (- i)) else str_nat (nat i))"

section \<open>Exceptions\<close>

text \<open>
  The exception classes the code names or can meet, each a subclass of \<open>Exception\<close>; an
  exception carries its class and its text \<open>str(e)\<close>. \<open>OtherException\<close> stands for every
  class that no handler of the code names. A computation that may raise returns
  \<open>exn + 'a\<close>, with \<open>Inl\<close> the exception raised.
\<close>

datatype exn_class =
    IndexError | ValueError
  | NXDOMAIN | NoAnswer
  | SMTPConnectError | SMTPServerDisconnect_outcome | SMTPRecipientsRefused
  | SocketTimeout
  | OtherException

datatype exn = Exn exn_class string

fun exn_class_of :: "exn \<Rightarrow> exn_class" where
  "exn_class_of (Exn k m) = k"

fun str_exn :: "exn \<Rightarrow> string" where
  "str_exn (Exn k m) = m"

text \<open>\<open>xs[i]\<close> for \<open>i \<ge> 0\<close>: IndexError out of range.\<close>

definition index :: "'a list \<Rightarrow> nat \<Rightarrow> exn + 'a" where
  "index xs i =
     (if i < length xs then Inr (xs ! i)
      else Inl (Exn IndexError ''list index out of range''))"

section \<open>Regular expressions\<close>

text \<open>
  The fragment of Python's \<open>re\<close> syntax that the pattern uses: character classes made of
  ranges and single characters, concatenation, and repetition. \<open>Nothing\<close>, \<open>Emp\<close> and \<open>Alt\<close>
  are there for the derivatives.
\<close>

datatype rexp =
    Nothing
  | Emp
  | Cls "(char \<times> char) list"
  | Alt rexp rexp
  | Seq rexp rexp
  | Star rexp

definition in_cls :: "(char \<times> char) list \<Rightarrow> char \<Rightarrow> bool" where
  "in_cls rs c = list_ex (\<lambda>(lo, hi). code_point lo \<le> code_point c \<and> code_point c \<le> code_point hi) rs"

definition Chr :: "char \<Rightarrow> rexp" where
  "Chr c = Cls [(c, c)]"

text \<open>\<open>r+\<close> and \<open>r{2,}\<close>.\<close>

definition OneOrMore :: "rexp \<Rightarrow> rexp" where
  "OneOrMore r = Seq r (Star r)"

definition TwoOrMore :: "rexp \<Rightarrow> rexp" where
  "TwoOrMore r = Seq r (Seq r (Star r))"

fun nullable :: "rexp \<Rightarrow> bool" where
  "nullable Nothing = False"
| "nullable Emp = True"
| "nullable (Cls rs) = False"
| "nullable (Alt r s) = (nullable r \<or> nullable s)"
| "nullable (Seq r s) = (nullable r \<and> nullable s)"
| "nullable (Star r) = True"

fun deriv :: "char \<Rightarrow> rexp \<Rightarrow> rexp" where
  "deriv c Nothing = Nothing"
| "deriv c Emp = Nothing"
| "deriv c (Cls rs) = (if in_cls rs c then Emp else Nothing)"
| "deriv c (Alt r s) = Alt (deriv c r) (deriv c s)"
| "deriv c (Seq r s) =
     (if nullable r then Alt (Seq (deriv c r) s) (deriv c s) else Seq (deriv c r) s)"
| "deriv c (Star r) = Seq (deriv c r) (Star r)"

text \<open>The whole string is in the language of the expression.\<close>

fun fullmatch :: "rexp \<Rightarrow> string \<Rightarrow> bool" where
  "fullmatch r [] = nullable r"
| "fullmatch r (c # cs) = fullmatch (deriv c r) cs"

text \<open>
  \<open>re.match('^' + r + '$', s)\<close>, without flags: \<open>^\<close> holds at the start of the string,
  and \<open>$\<close> holds at the end of the string and also just before a newline that is the
  last character. So the expression has to take the whole string, or the whole string
  but a final newline.
\<close>

definition re_match_anchored :: "rexp \<Rightarrow> string \<Rightarrow> bool" where
  "re_match_anchored r s =
     (fullmatch r s \<or> (s \<noteq> [] \<and> last s = CHR 0x0A \<and> fullmatch r (butlast s)))"

text \<open>The language of an expression, to reason about \<open>fullmatch\<close>.\<close>

inductive accepts :: "rexp \<Rightarrow> string \<Rightarrow> bool" where
  acc_Emp: "accepts Emp []"
| acc_Cls: "in_cls rs c \<Longrightarrow> accepts (Cls rs) [c]"
| acc_AltL: "accepts r w \<Longrightarrow> accepts (Alt r s) w"
| acc_AltR: "accepts s w \<Longrightarrow> accepts (Alt r s) w"
| acc_Seq: "accepts r u \<Longrightarrow> accepts s v \<Longrightarrow> accepts (Seq r s) (u @ v)"
| acc_StarNil: "accepts (Star r) []"
| acc_StarStep: "accepts r u \<Longrightarrow> accepts (Star r) v \<Longrightarrow> accepts (Star r) (u @ v)"

section \<open>The format check\<close>

text \<open>
  The pattern of both classes:
  \<^verbatim>\<open>^[a-zA-Z0-9._%+-]+@[a-zA-Z0-9.-]+\.[a-zA-Z]{2,}$\<close>
  The anchors are in \<open>re_match_anchored\<close>.
\<close>

definition local_ranges :: "(char \<times> char) list" where
  "local_ranges = [(CHR ''a'', CHR ''z''), (CHR ''A'', CHR ''Z''), (CHR ''0'', CHR ''9''),
                   (CHR ''.'', CHR ''.''), (CHR ''_'', CHR ''_''), (CHR ''%'', CHR ''%''),
                   (CHR ''+'', CHR ''+''), (CHR ''-'', CHR ''-'')]"

definition domain_ranges :: "(char \<times> char) list" where
  "domain_ranges = [(CHR ''a'', CHR ''z''), (CHR ''A'', CHR ''Z''), (CHR ''0'', CHR ''9''),
                    (CHR ''.'', CHR ''.''), (CHR ''-'', CHR ''-'')]"

definition alpha_ranges :: "(char \<times> char) list" where
  "alpha_ranges = [(CHR ''a'', CHR ''z''), (CHR ''A'', CHR ''Z'')]"

definition email_pattern :: rexp where
  "email_pattern =
     Seq (OneOrMore (Cls local_ranges))
       (Seq (Chr CHR ''@'')
          (Seq (OneOrMore (Cls domain_ranges))
             (Seq (Chr CHR ''.'') (TwoOrMore (Cls alpha_ranges)))))"

text \<open>The shape of the strings of the pattern (lemma \<open>acc_email_pattern\<close>): local part, domain
  without its last label, last label.\<close>

definition well_formed :: "string \<Rightarrow> string \<Rightarrow> string \<Rightarrow> bool" where
  "well_formed l d t \<longleftrightarrow>
     l \<noteq> [] \<and> (\<forall>c\<in>set l. in_cls local_ranges c) \<and>
     d \<noteq> [] \<and> (\<forall>c\<in>set d. in_cls domain_ranges c) \<and>
     2 \<le> length t \<and> (\<forall>c\<in>set t. in_cls alpha_ranges c)"

text \<open>
  \<open>EmailVerifier._is_valid_email_format\<close> (a name cannot start with an underscore here):
  \<open>re.match(pattern, email) is not None\<close>. On a \<open>str\<close>, \<open>re.match\<close> does not raise.
\<close>

definition ev_is_valid_email_format :: "string \<Rightarrow> bool" where
  "ev_is_valid_email_format email = re_match_anchored email_pattern email"

text \<open>
  \<open>ExcelProcessor.is_valid_email_format\<close>: \<open>bool(re.match(self.email_pattern, email.strip()))\<close>
  inside a \<open>try\<close> whose handler returns False; on a \<open>str\<close> nothing in it raises.
\<close>

definition is_valid_email_format :: "string \<Rightarrow> bool" where
  "is_valid_email_format email = re_match_anchored email_pattern (strip email)"

text \<open>
  The domain of an address as the data model describes it: what follows the separator,
  in lower case. \<open>verify_email\<close> computes \<open>email.split('@')[1].lower()\<close>; the two agree
  on every address that passes the format check (lemma \<open>valid_format_domain\<close>).
\<close>

definition domain_of :: "string \<Rightarrow> string" where
  "domain_of email = lower (tl (dropWhile (\<lambda>c. c \<noteq> CHR ''@'') email))"

section \<open>The network\<close>

text \<open>
  What the code asks of the outside world, as a record of answers. An answer is either a
  value or the exception the library call raises. \<open>resolve_MX\<close> and \<open>resolve_A\<close> are
  \<open>dns.resolver.resolve(domain, 'MX')\<close> and \<open>(domain, 'A')\<close>; an MX record carries its
  preference and \<open>str(record.exchange)\<close>, an A record is given as \<open>str(record)\<close>. The type
  \<open>'c\<close> is the state of an \<open>smtplib.SMTP\<close> connection: \<open>smtp_connect\<close> takes the timeout
  of the object, the host and the port, and every later call takes the connection.
\<close>

record mx_rdata =
  preference :: nat
  exchange :: string

record 'c net =
  resolve_MX :: "string \<Rightarrow> exn + mx_rdata list"
  resolve_A :: "string \<Rightarrow> exn + string list"
  gethostname :: string
  smtp_connect :: "int \<Rightarrow> string \<Rightarrow> nat \<Rightarrow> exn + 'c"
  smtp_helo :: "'c \<Rightarrow> string \<Rightarrow> exn + 'c"
  smtp_mail :: "'c \<Rightarrow> string \<Rightarrow> exn + 'c"
  smtp_rcpt :: "'c \<Rightarrow> string \<Rightarrow> exn + ((int \<times> string) \<times> 'c)"
  smtp_quit :: "'c \<Rightarrow> exn + unit"

section \<open>EmailVerifier\<close>

record verifier =
  timeout :: int
  sender_email :: string

text \<open>
  Lines 45-46 of \<open>verify_email\<close>, the body of the inner \<open>try\<close>:
  \<open>mx_records = dns.resolver.resolve(domain, 'MX')\<close>, then
  \<open>mx_record = str(mx_records[0].exchange).rstrip('.')\<close>.
\<close>

definition lookup_mx_record :: "'c net \<Rightarrow> string \<Rightarrow> exn + string" where
  "lookup_mx_record net domain =
     (case resolve_MX net domain of
        Inl e \<Rightarrow> Inl e
      | Inr mx_records \<Rightarrow>
          (case index mx_records 0 of
             Inl e \<Rightarrow> Inl e
           | Inr r \<Rightarrow> Inr (rstrip_dot (exchange r))))"

text \<open>
  Lines 53-65, the SMTP conversation up to \<open>server.quit()\<close>: the result is the code of
  the reply to RCPT, or the exception of the first call that raises.
\<close>

definition smtp_conversation :: "'c net \<Rightarrow> verifier \<Rightarrow> string \<Rightarrow> string \<Rightarrow> exn + int" where
  "smtp_conversation net self mx_record email =
     (case smtp_connect net (timeout self) mx_record 25 of
        Inl e \<Rightarrow> Inl e
      | Inr c1 \<Rightarrow>
     (case smtp_helo net c1 (gethostname net) of
        Inl e \<Rightarrow> Inl e
      | Inr c2 \<Rightarrow>
     (case smtp_mail net c2 (sender_email self) of
        Inl e \<Rightarrow> Inl e
      | Inr c3 \<Rightarrow>
     (case smtp_rcpt net c3 email of
        Inl e \<Rightarrow> Inl e
      | Inr ((code, message), c4) \<Rightarrow>
     (case smtp_quit net c4 of
        Inl e \<Rightarrow> Inl e
      | Inr u \<Rightarrow> Inr code)))))"

text \<open>Lines 67-77: "Analyze response code".\<close>

definition analyze_response_code :: "int \<Rightarrow> bool \<times> string" where
  "analyze_response_code code =
     (if code = 250 then (True, ''Email address exists'')
      else if code = 550 then (False, ''Email address does not exist'')
      else if code = 552 then (False, ''Mailbox full or quota exceeded'')
      else if code = 553 then (False, ''Invalid email address'')
      else (False, ''SMTP error code: '' @ str_int code))"

text \<open>Lines 79-88: the handlers of the SMTP \<open>try\<close>, in the order of the source.\<close>

definition smtp_except :: "exn \<Rightarrow> bool \<times> string" where
  "smtp_except e =
     (if exn_class_of e = SMTPConnectError then (False, ''Cannot connect to SMTP server'')
      else if exn_class_of e = SMTPServerDisconnect_outcome then (False, ''SMTP server disconnect_outcome'')
      else if exn_class_of e = SMTPRecipientsRefused then (False, ''Recipient refused'')
      else if exn_class_of e = SocketTimeout then (False, ''SMTP connection timeout'')
      else (False, ''SMTP error: '' @ str_exn e))"

text \<open>Lines 36-88: the body of the outer \<open>try\<close>.\<close>

definition verify_email_body :: "'c net \<Rightarrow> verifier \<Rightarrow> string \<Rightarrow> exn + (bool \<times> string)" where
  "verify_email_body net self email =
     (if \<not> ev_is_valid_email_format email then Inr (False, ''Invalid email format'')
      else
        (case index (split CHR ''@'' email) 1 of
           Inl e \<Rightarrow> Inl e
         | Inr d \<Rightarrow>
             (let domain = lower d
              in case lookup_mx_record net domain of
                   Inl e \<Rightarrow> Inr (False, ''No MX record found for domain: '' @ domain)
                 | Inr mx_record \<Rightarrow>
                     (case smtp_conversation net self mx_record email of
                        Inr code \<Rightarrow> Inr (analyze_response_code code)
                      | Inl smtp_e \<Rightarrow> Inr (smtp_except smtp_e)))))"

text \<open>
  \<open>verify_email\<close>: the outer \<open>except Exception\<close> turns whatever the body raises into
  \<open>(False, "error")\<close>. \<open>Inl\<close> would be an exception that reaches the caller.
\<close>

definition verify_email :: "'c net \<Rightarrow> verifier \<Rightarrow> string \<Rightarrow> exn + (bool \<times> string)" where
  "verify_email net self email =
     (case verify_email_body net self email of
        Inl e \<Rightarrow> Inr (False, ''error'')
      | Inr r \<Rightarrow> Inr r)"

subsection \<open>verify_email_batch\<close>

text \<open>
  The \<open>results\<close> dict, in its iteration order: assigning to a key that is present
  replaces the value where the key stands, a new key goes to the end.
\<close>

fun dict_set :: "('k \<times> 'v) list \<Rightarrow> 'k \<Rightarrow> 'v \<Rightarrow> ('k \<times> 'v) list" where
  "dict_set [] k v = [(k, v)]"
| "dict_set ((k', v') # kvs) k v =
     (if k' = k then (k', v) # kvs else (k', v') # dict_set kvs k v)"

text \<open>\<open>time.sleep(delay)\<close> returns, or raises ValueError for a negative delay.\<close>

definition time_sleep :: "real \<Rightarrow> exn + unit" where
  "time_sleep delay =
     (if delay < 0 then Inl (Exn ValueError ''sleep length must be non-negative'') else Inr ())"

text \<open>\<open>emails[-1]\<close>.\<close>

definition index_last :: "'a list \<Rightarrow> exn + 'a" where
  "index_last xs = (if xs = [] then Inl (Exn IndexError ''list index out of range'') else Inr (last xs))"

text \<open>
  The \<open>for\<close> loop of lines 119-128 over the emails still to visit; \<open>emails\<close> is the whole
  argument, read by \<open>emails[-1]\<close>.
\<close>

fun batch_loop ::
  "'c net \<Rightarrow> verifier \<Rightarrow> real \<Rightarrow> string list \<Rightarrow> string list \<Rightarrow> (string \<times> bool \<times> string) list
     \<Rightarrow> exn + (string \<times> bool \<times> string) list" where
  "batch_loop net self delay emails [] results = Inr results"
| "batch_loop net self delay emails (email # rest) results =
     (case verify_email net self email of
        Inl e \<Rightarrow> Inl e
      | Inr (is_valid, details) \<Rightarrow>
          (let results' = dict_set results email (is_valid, details)
           in case index_last emails of
                Inl e \<Rightarrow> Inl e
              | Inr l \<Rightarrow>
                  if email \<noteq> l
                  then (case time_sleep delay of
                          Inl e \<Rightarrow> Inl e
                        | Inr u \<Rightarrow> batch_loop net self delay emails rest results')
                  else batch_loop net self delay emails rest results'))"

definition verify_email_batch ::
  "'c net \<Rightarrow> verifier \<Rightarrow> string list \<Rightarrow> real \<Rightarrow> exn + (string \<times> bool \<times> string) list" where
  "verify_email_batch net self emails delay = batch_loop net self delay emails emails []"

subsection \<open>get_domain_info\<close>

record domain_info =
  domain :: string
  mx_records :: "string list"
  a_records :: "string list"
  has_mx :: bool
  resolvable :: bool
  error :: "string option"

definition get_domain_info :: "'c net \<Rightarrow> string \<Rightarrow> exn + domain_info" where
  "get_domain_info net email =
     (case index (split CHR ''@'' email) 1 of
        Inl e \<Rightarrow>
          Inr \<lparr>domain = ''unknown'', mx_records = [], a_records = [], has_mx = False,
               resolvable = False, error = Some (str_exn e)\<rparr>
      | Inr d \<Rightarrow>
          (let domain_name = lower d;
               mx_list = (case resolve_MX net domain_name of
                            Inl e \<Rightarrow> []
                          | Inr rs \<Rightarrow> map (\<lambda>record. rstrip_dot (exchange record)) rs);
               a_list = (case resolve_A net domain_name of
                           Inl e \<Rightarrow> []
                         | Inr rs \<Rightarrow> rs)
           in Inr \<lparr>domain = domain_name, mx_records = mx_list, a_records = a_list,
                   has_mx = (length mx_list > 0), resolvable = (length a_list > 0),
                   error = None\<rparr>))"

section \<open>The statuses of app.py\<close>

text \<open>
  The values of the column \<open>Email_Verification_Status\<close>: 'Valid', 'Invalid', 'Error',
  'Invalid Format' and 'Not Checked'.
\<close>

datatype status = Valid | Invalid | Error | Invalid_Format | Not_Checked

text \<open>Lines 167-175 of \<open>verify_emails\<close>: the status of a result of \<open>verify_email\<close>.\<close>

definition verification_status :: "bool \<Rightarrow> string \<Rightarrow> status" where
  "verification_status is_valid details =
     (if is_valid then Valid
      else if details = ''error'' then Error
      else Invalid)"

text \<open>
  Lines 153-177 for a row whose cell is the string \<open>email\<close>: the status and the details
  written to the row.
\<close>

definition verify_row :: "'c net \<Rightarrow> verifier \<Rightarrow> string \<Rightarrow> exn + (status \<times> string)" where
  "verify_row net self email =
     (if \<not> is_valid_email_format email then Inr (Invalid_Format, ''Invalid email format'')
      else
        (case verify_email net self email of
           Inl e \<Rightarrow> Inl e
         | Inr (is_valid, details) \<Rightarrow> Inr (verification_status is_valid details, details)))"

text \<open>The counters of lines 141-144 and 167-175, run over a list of results.\<close>

record progress =
  valid_count :: nat
  invalid_count :: nat
  error_count :: nat

fun tally :: "progress \<Rightarrow> (string \<times> bool \<times> string) list \<Rightarrow> progress" where
  "tally p [] = p"
| "tally p ((email, is_valid, details) # rest) =
     (if is_valid then tally (p\<lparr>valid_count := valid_count p + 1\<rparr>) rest
      else if details = ''error'' then tally (p\<lparr>error_count := error_count p + 1\<rparr>) rest
      else tally (p\<lparr>invalid_count := invalid_count p + 1\<rparr>) rest)"

section \<open>The resolver and the batch in the words of the specification\<close>

text \<open>
  The resolver as the specification words it: the targets of the answer in ascending
  order of preference, the trailing root-zone separator trimmed from each host name. It is
  compared with what the code computes from the same answer.
\<close>

definition resolveMailTargets_spec :: "mx_rdata list \<Rightarrow> string list" where
  "resolveMailTargets_spec answer =
     map (\<lambda>record. rstrip_dot (exchange record)) (sort_key preference answer)"

text \<open>
  The distinct elements of a list, each at the place of its first occurrence.
\<close>

definition first_occurrences :: "'a list \<Rightarrow> 'a list" where
  "first_occurrences xs = rev (remdups (rev xs))"

text \<open>
  The counters of app.py before the first row.
\<close>

definition zero_progress :: progress where
  "zero_progress = \<lparr>valid_count = 0, invalid_count = 0, error_count = 0\<rparr>"

section \<open>Test doubles\<close>

text \<open>
  A network that gives the same answer to every query: the MX answer, the A answer, the
  outcome of connecting and the outcome of RCPT; HELO, MAIL and QUIT succeed.
\<close>

definition mock_net ::
  "exn + mx_rdata list \<Rightarrow> exn + string list \<Rightarrow> exn + unit \<Rightarrow> exn + ((int \<times> string) \<times> unit)
     \<Rightarrow> unit net" where
  "mock_net mx_answer a_answer connect_outcome rcpt_reply =
     \<lparr>resolve_MX = (\<lambda>d. mx_answer), resolve_A = (\<lambda>d. a_answer), gethostname = ''localhost'',
      smtp_connect = (\<lambda>t h p. connect_outcome), smtp_helo = (\<lambda>c n. Inr c), smtp_mail = (\<lambda>c s. Inr c),
      smtp_rcpt = (\<lambda>c r. rcpt_reply), smtp_quit = (\<lambda>c. Inr ())\<rparr>"

definition default_verifier :: verifier where
  "default_verifier = \<lparr>timeout = 10, sender_email = ''test@example.com''\<rparr>"


text \<open>A mail server that accepts every recipient.\<close>

definition accepting_net :: "unit net" where
  "accepting_net = mock_net (Inr [\<lparr>preference = 10, exchange = ''mx.example.com.''\<rparr>]) (Inr [''93.184.216.34''])
      (Inr ()) (Inr ((250, ''2.1.5 Ok''), ()))"

text \<open>A domain with an address record and no MX record.\<close>

definition no_mx_net :: "unit net" where
  "no_mx_net = mock_net (Inl (Exn NoAnswer ''The DNS response does not contain an answer to the question'')) (Inr [''93.184.216.34''])
      (Inr ()) (Inr ((250, ''2.1.5 Ok''), ()))"

text \<open>
  An answer whose records are not in the order of their preferences, and a network that
  gives it.
\<close>

definition unsorted_answer :: "mx_rdata list" where
  "unsorted_answer = [\<lparr>preference = 20, exchange = ''mx2.example.com.''\<rparr>,
                      \<lparr>preference = 10, exchange = ''mx1.example.com.''\<rparr>]"

definition unsorted_net :: "unit net" where
  "unsorted_net = mock_net (Inr unsorted_answer) (Inr [''93.184.216.34''])
      (Inr ()) (Inr ((250, ''2.1.5 Ok''), ()))"

text \<open>
  A network on which no domain exists.
\<close>

definition nxdomain_net :: "unit net" where
  "nxdomain_net = mock_net (Inl (Exn NXDOMAIN ''The DNS query name does not exist'')) (Inl (Exn NXDOMAIN ''The DNS query name does not exist''))
      (Inr ()) (Inr ((250, ''2.1.5 Ok''), ()))"

section \<open>The matcher decides the language\<close>

inductive_cases acc_NothingE: "accepts Nothing w"
inductive_cases acc_EmpE: "accepts Emp w"
inductive_cases acc_ClsE: "accepts (Cls rs) w"
inductive_cases acc_AltE: "accepts (Alt r s) w"
inductive_cases acc_SeqE: "accepts (Seq r s) w"

lemma acc_Seq_Nil: "accepts r [] \<Longrightarrow> accepts s [] \<Longrightarrow> accepts (Seq r s) []"
  using acc_Seq [of r "[]" s "[]"] by simp

lemma nullable_accepts: "nullable r \<longleftrightarrow> accepts r []"
proof (induction r)
  case (Star r)
  show ?case by (simp add: acc_StarNil)
qed (auto intro: accepts.intros acc_Seq_Nil elim: acc_NothingE acc_EmpE acc_ClsE acc_AltE acc_SeqE)

lemma acc_Star_cons:
  assumes "accepts r' w" and "r' = Star r" and "w = c # v"
  shows "\<exists>u1 u2. v = u1 @ u2 \<and> accepts r (c # u1) \<and> accepts (Star r) u2"
  using assms
proof (induction arbitrary: v rule: accepts.induct)
  case (acc_StarStep r0 u t v)
  show ?case
  proof (cases u)
    case Nil
    with acc_StarStep show ?thesis by simp
  next
    case (Cons a u')
    with acc_StarStep have "a = c" and "v = u' @ t" and "r0 = r" by auto
    with acc_StarStep Cons show ?thesis by blast
  qed
qed auto

lemma deriv_accepts: "accepts (deriv c r) w \<longleftrightarrow> accepts r (c # w)"
proof (induction r arbitrary: w)
  case Nothing
  show ?case by (auto elim: acc_NothingE)
next
  case Emp
  show ?case by (auto elim: acc_NothingE acc_EmpE)
next
  case (Cls rs)
  show ?case by (auto intro: accepts.intros elim: acc_NothingE acc_EmpE acc_ClsE)
next
  case (Alt r1 r2)
  then show ?case by (auto intro: accepts.intros elim!: acc_AltE)
next
  case (Seq r1 r2)
  show ?case
  proof
    assume "accepts (deriv c (Seq r1 r2)) w"
    then consider (a) "accepts (Seq (deriv c r1) r2) w" | (b) "nullable r1" "accepts (deriv c r2) w"
      by (auto split: if_splits elim: acc_AltE)
    then show "accepts (Seq r1 r2) (c # w)"
    proof cases
      case a
      then obtain u v where "w = u @ v" "accepts (deriv c r1) u" "accepts r2 v"
        by (auto elim: acc_SeqE)
      then have "accepts r1 (c # u)" using Seq.IH(1) by simp
      then have "accepts (Seq r1 r2) ((c # u) @ v)" using \<open>accepts r2 v\<close> by (rule acc_Seq)
      with \<open>w = u @ v\<close> show ?thesis by simp
    next
      case b
      then have "accepts r1 []" "accepts r2 (c # w)"
        using Seq.IH(2) by (simp_all add: nullable_accepts)
      then have "accepts (Seq r1 r2) ([] @ c # w)" by (rule acc_Seq)
      then show ?thesis by simp
    qed
  next
    assume "accepts (Seq r1 r2) (c # w)"
    then obtain u v where uv: "c # w = u @ v" "accepts r1 u" "accepts r2 v"
      by (auto elim: acc_SeqE)
    show "accepts (deriv c (Seq r1 r2)) w"
    proof (cases u)
      case Nil
      with uv have "nullable r1" "accepts (deriv c r2) w"
        using Seq.IH(2) by (simp_all add: nullable_accepts)
      then show ?thesis by (simp add: acc_AltR)
    next
      case (Cons a u')
      with uv have "accepts (deriv c r1) u'" "w = u' @ v"
        using Seq.IH(1) by simp_all
      with uv have "accepts (Seq (deriv c r1) r2) w" by (auto intro: acc_Seq)
      then show ?thesis by (simp add: acc_AltL)
    qed
  qed
next
  case (Star r)
  show ?case
  proof
    assume "accepts (deriv c (Star r)) w"
    then obtain u v where "w = u @ v" "accepts (deriv c r) u" "accepts (Star r) v"
      by (auto elim: acc_SeqE)
    then have "accepts r (c # u)" "accepts (Star r) v" using Star.IH by simp_all
    then have "accepts (Star r) ((c # u) @ v)" by (rule acc_StarStep)
    with \<open>w = u @ v\<close> show "accepts (Star r) (c # w)" by simp
  next
    assume "accepts (Star r) (c # w)"
    then obtain u1 u2 where "w = u1 @ u2" "accepts r (c # u1)" "accepts (Star r) u2"
      using acc_Star_cons by blast
    then show "accepts (deriv c (Star r)) w" using Star.IH by (auto intro: acc_Seq)
  qed
qed

lemma fullmatch_accepts: "fullmatch r s \<longleftrightarrow> accepts r s"
  by (induction s arbitrary: r) (simp_all add: nullable_accepts deriv_accepts)


lemma acc_Seq_iff: "accepts (Seq r s) w \<longleftrightarrow> (\<exists>u v. w = u @ v \<and> accepts r u \<and> accepts s v)"
proof
  assume "accepts (Seq r s) w"
  then show "\<exists>u v. w = u @ v \<and> accepts r u \<and> accepts s v"
    by (rule acc_SeqE) blast
next
  assume "\<exists>u v. w = u @ v \<and> accepts r u \<and> accepts s v"
  then show "accepts (Seq r s) w" by (auto intro: acc_Seq)
qed

lemma acc_Cls_iff: "accepts (Cls rs) w \<longleftrightarrow> (\<exists>c. w = [c] \<and> in_cls rs c)"
  by (auto intro: acc_Cls elim: acc_ClsE)

lemma acc_Star_Cls_only:
  assumes "accepts r w" and "r = Star (Cls rs)"
  shows "\<forall>c\<in>set w. in_cls rs c"
  using assms
  by (induction rule: accepts.induct) (auto simp: acc_Cls_iff)

lemma acc_Star_Cls_if: "\<forall>c\<in>set w. in_cls rs c \<Longrightarrow> accepts (Star (Cls rs)) w"
proof (induction w)
  case Nil
  show ?case by (rule acc_StarNil)
next
  case (Cons c w)
  then have "accepts (Cls rs) [c]" "accepts (Star (Cls rs)) w"
    by (simp_all add: acc_Cls)
  then have "accepts (Star (Cls rs)) ([c] @ w)" by (rule acc_StarStep)
  then show ?case by simp
qed

lemma acc_Star_Cls_iff: "accepts (Star (Cls rs)) w \<longleftrightarrow> (\<forall>c\<in>set w. in_cls rs c)"
  using acc_Star_Cls_only acc_Star_Cls_if by blast

lemma acc_OneOrMore_Cls:
  "accepts (OneOrMore (Cls rs)) w \<longleftrightarrow> w \<noteq> [] \<and> (\<forall>c\<in>set w. in_cls rs c)"
proof
  assume "accepts (OneOrMore (Cls rs)) w"
  then show "w \<noteq> [] \<and> (\<forall>c\<in>set w. in_cls rs c)"
    by (auto simp: OneOrMore_def acc_Seq_iff acc_Cls_iff acc_Star_Cls_iff)
next
  assume a: "w \<noteq> [] \<and> (\<forall>c\<in>set w. in_cls rs c)"
  then obtain c v where "w = c # v" by (cases w) auto
  with a have "w = [c] @ v" "in_cls rs c" "\<forall>x\<in>set v. in_cls rs x" by auto
  then show "accepts (OneOrMore (Cls rs)) w"
    unfolding OneOrMore_def acc_Seq_iff acc_Cls_iff acc_Star_Cls_iff by blast
qed

lemma acc_TwoOrMore_Cls:
  "accepts (TwoOrMore (Cls rs)) w \<longleftrightarrow> 2 \<le> length w \<and> (\<forall>c\<in>set w. in_cls rs c)"
proof
  assume "accepts (TwoOrMore (Cls rs)) w"
  then show "2 \<le> length w \<and> (\<forall>c\<in>set w. in_cls rs c)"
    by (auto simp: TwoOrMore_def acc_Seq_iff acc_Cls_iff acc_Star_Cls_iff)
next
  assume a: "2 \<le> length w \<and> (\<forall>c\<in>set w. in_cls rs c)"
  then obtain c d v where "w = c # d # v" by (cases w; cases "tl w") auto
  with a have "w = [c] @ [d] @ v" "in_cls rs c" "in_cls rs d" "\<forall>x\<in>set v. in_cls rs x" by auto
  then show "accepts (TwoOrMore (Cls rs)) w"
    unfolding TwoOrMore_def acc_Seq_iff acc_Cls_iff acc_Star_Cls_iff by blast
qed

lemma in_cls_single: "in_cls [(c, c)] x \<longleftrightarrow> x = c"
  by (auto simp: in_cls_def code_point_def)

lemma acc_Chr_iff: "accepts (Chr c) w \<longleftrightarrow> w = [c]"
  by (auto simp: Chr_def acc_Cls_iff in_cls_single)

lemma acc_email_pattern:
  "accepts email_pattern s \<longleftrightarrow>
     (\<exists>l d t. s = l @ CHR ''@'' # d @ CHR ''.'' # t \<and> well_formed l d t)"
proof
  assume "accepts email_pattern s"
  then show "\<exists>l d t. s = l @ CHR ''@'' # d @ CHR ''.'' # t \<and> well_formed l d t"
    unfolding email_pattern_def acc_Seq_iff acc_Chr_iff acc_OneOrMore_Cls acc_TwoOrMore_Cls
      well_formed_def
    by auto
next
  assume "\<exists>l d t. s = l @ CHR ''@'' # d @ CHR ''.'' # t \<and> well_formed l d t"
  then obtain l d t where s: "s = l @ CHR ''@'' # d @ CHR ''.'' # t" and wf: "well_formed l d t"
    by blast
  have t: "accepts (TwoOrMore (Cls alpha_ranges)) t"
    using wf by (simp add: well_formed_def acc_TwoOrMore_Cls)
  have dot: "accepts (Chr CHR ''.'') [CHR ''.'']" and at: "accepts (Chr CHR ''@'') [CHR ''@'']"
    by (simp_all add: acc_Chr_iff)
  have d: "accepts (OneOrMore (Cls domain_ranges)) d"
    using wf by (simp add: well_formed_def acc_OneOrMore_Cls)
  have l: "accepts (OneOrMore (Cls local_ranges)) l"
    using wf by (simp add: well_formed_def acc_OneOrMore_Cls)
  have "accepts email_pattern (l @ [CHR ''@''] @ d @ [CHR ''.''] @ t)"
    unfolding email_pattern_def
    using acc_Seq [OF l acc_Seq [OF at acc_Seq [OF d acc_Seq [OF dot t]]]] .
  with s show "accepts email_pattern s" by simp
qed

section \<open>The strings the format check accepts\<close>

lemma isspace_not_local: "isspace c \<Longrightarrow> \<not> in_cls local_ranges c"
  by (auto simp: isspace_def in_cls_def local_ranges_def code_point_def)

lemma at_not_local: "\<not> in_cls local_ranges CHR ''@''"
  by (simp add: in_cls_def local_ranges_def code_point_def)

lemma at_not_domain: "\<not> in_cls domain_ranges CHR ''@''"
  by (simp add: in_cls_def domain_ranges_def code_point_def)

lemma at_not_alpha: "\<not> in_cls alpha_ranges CHR ''@''"
  by (simp add: in_cls_def alpha_ranges_def code_point_def)

lemma isspace_not_alpha: "isspace c \<Longrightarrow> \<not> in_cls alpha_ranges c"
  by (auto simp: isspace_def in_cls_def alpha_ranges_def code_point_def)

lemma newline_isspace: "isspace (CHR 0x0A)"
  by (simp add: isspace_def code_point_def)

lemma ev_valid_shape:
  "ev_is_valid_email_format s \<longleftrightarrow>
     (\<exists>l d t. well_formed l d t \<and>
        (s = l @ CHR ''@'' # d @ CHR ''.'' # t \<or> s = l @ CHR ''@'' # d @ CHR ''.'' # t @ [CHR 0x0A]))"
proof
  assume "ev_is_valid_email_format s"
  then consider (whole) "accepts email_pattern s"
    | (nl) "s \<noteq> []" "last s = CHR 0x0A" "accepts email_pattern (butlast s)"
    by (auto simp: ev_is_valid_email_format_def re_match_anchored_def fullmatch_accepts)
  then show "\<exists>l d t. well_formed l d t \<and>
        (s = l @ CHR ''@'' # d @ CHR ''.'' # t \<or> s = l @ CHR ''@'' # d @ CHR ''.'' # t @ [CHR 0x0A])"
  proof cases
    case whole
    then show ?thesis by (auto simp: acc_email_pattern)
  next
    case nl
    then obtain l d t where "butlast s = l @ CHR ''@'' # d @ CHR ''.'' # t" "well_formed l d t"
      by (auto simp: acc_email_pattern)
    moreover from nl have "s = butlast s @ [CHR 0x0A]"
      using append_butlast_last_id [of s] by simp
    ultimately show ?thesis by auto
  qed
next
  assume "\<exists>l d t. well_formed l d t \<and>
        (s = l @ CHR ''@'' # d @ CHR ''.'' # t \<or> s = l @ CHR ''@'' # d @ CHR ''.'' # t @ [CHR 0x0A])"
  then obtain l d t where wf: "well_formed l d t"
    and s: "s = l @ CHR ''@'' # d @ CHR ''.'' # t \<or> s = l @ CHR ''@'' # d @ CHR ''.'' # t @ [CHR 0x0A]"
    by blast
  from wf have acc: "accepts email_pattern (l @ CHR ''@'' # d @ CHR ''.'' # t)"
    by (auto simp: acc_email_pattern)
  from s show "ev_is_valid_email_format s"
  proof
    assume "s = l @ CHR ''@'' # d @ CHR ''.'' # t"
    with acc show ?thesis
      by (simp add: ev_is_valid_email_format_def re_match_anchored_def fullmatch_accepts)
  next
    assume "s = l @ CHR ''@'' # d @ CHR ''.'' # t @ [CHR 0x0A]"
    then have "s = (l @ CHR ''@'' # d @ CHR ''.'' # t) @ [CHR 0x0A]" by simp
    then have "s \<noteq> []" "last s = CHR 0x0A" "butlast s = l @ CHR ''@'' # d @ CHR ''.'' # t"
      by (simp_all only: butlast_snoc last_snoc snoc_eq_iff_butlast not_False_eq_True) auto
    with acc show ?thesis
      by (simp add: ev_is_valid_email_format_def re_match_anchored_def fullmatch_accepts)
  qed
qed

lemma split_no_sep: "sep \<notin> set s \<Longrightarrow> split sep s = [s]"
  by (induction s) auto

lemma split_first: "sep \<notin> set l \<Longrightarrow> split sep (l @ sep # r) = l # split sep r"
  by (induction l) auto

lemma dropWhile_first: "sep \<notin> set l \<Longrightarrow> dropWhile (\<lambda>c. c \<noteq> sep) (l @ sep # r) = sep # r"
  by (induction l) auto

lemma well_formed_no_at:
  assumes "well_formed l d t"
  shows "CHR ''@'' \<notin> set l" and "CHR ''@'' \<notin> set (d @ CHR ''.'' # t)"
    and "CHR ''@'' \<notin> set (d @ CHR ''.'' # t @ [CHR 0x0A])"
  using assms at_not_local at_not_domain at_not_alpha
  by (auto simp: well_formed_def)

lemma valid_format_parts:
  assumes "ev_is_valid_email_format s"
  shows "\<exists>l r. s = l @ CHR ''@'' # r \<and> CHR ''@'' \<notin> set l \<and> CHR ''@'' \<notin> set r \<and> CHR ''.'' \<in> set r"
proof -
  from assms obtain l d t where wf: "well_formed l d t"
    and s: "s = l @ CHR ''@'' # d @ CHR ''.'' # t \<or> s = l @ CHR ''@'' # d @ CHR ''.'' # t @ [CHR 0x0A]"
    unfolding ev_valid_shape by blast
  from s show ?thesis
  proof
    assume "s = l @ CHR ''@'' # d @ CHR ''.'' # t"
    with well_formed_no_at(1,2) [OF wf] show ?thesis
      by (intro exI [of _ l] exI [of _ "d @ CHR ''.'' # t"]) simp
  next
    assume "s = l @ CHR ''@'' # d @ CHR ''.'' # t @ [CHR 0x0A]"
    with well_formed_no_at(1,3) [OF wf] show ?thesis
      by (intro exI [of _ l] exI [of _ "d @ CHR ''.'' # t @ [CHR 0x0A]"]) simp
  qed
qed

lemma valid_format_split:
  assumes "ev_is_valid_email_format email"
  shows "index (split CHR ''@'' email) 1 = Inr (tl (dropWhile (\<lambda>c. c \<noteq> CHR ''@'') email))"
proof -
  from valid_format_parts [OF assms] obtain l r
    where "email = l @ CHR ''@'' # r" "CHR ''@'' \<notin> set l" "CHR ''@'' \<notin> set r"
    by blast
  then show ?thesis
    by (simp add: split_first split_no_sep dropWhile_first index_def)
qed

lemma valid_format_domain:
  assumes "ev_is_valid_email_format email"
  shows "\<exists>d. index (split CHR ''@'' email) 1 = Inr d \<and> lower d = domain_of email"
  using valid_format_split [OF assms] by (simp add: domain_of_def)

lemma dot_after_at:
  "(\<exists>p q. s = p @ CHR ''@'' # q \<and> CHR ''.'' \<in> set q)
     \<longleftrightarrow> CHR ''.'' \<in> set (dropWhile (\<lambda>c. c \<noteq> CHR ''@'') s)"
proof
  assume "\<exists>p q. s = p @ CHR ''@'' # q \<and> CHR ''.'' \<in> set q"
  then obtain p q where s: "s = p @ CHR ''@'' # q" and q: "CHR ''.'' \<in> set q" by blast
  show "CHR ''.'' \<in> set (dropWhile (\<lambda>c. c \<noteq> CHR ''@'') s)"
  proof (cases "CHR ''@'' \<in> set p")
    case False
    with s q show ?thesis by (simp add: dropWhile_first)
  next
    case True
    then obtain p1 p2 where "p = p1 @ CHR ''@'' # p2" "CHR ''@'' \<notin> set p1"
      using split_list_first [of "CHR ''@''" p] by blast
    with s q show ?thesis by (simp add: dropWhile_first)
  qed
next
  assume a: "CHR ''.'' \<in> set (dropWhile (\<lambda>c. c \<noteq> CHR ''@'') s)"
  have ne: "dropWhile (\<lambda>c. c \<noteq> CHR ''@'') s \<noteq> []"
  proof
    assume e: "dropWhile (\<lambda>c. c \<noteq> CHR ''@'') s = []"
    from a show False unfolding e by simp
  qed
  then have "hd (dropWhile (\<lambda>c. c \<noteq> CHR ''@'') s) = CHR ''@''"
    using hd_dropWhile [of "\<lambda>c. c \<noteq> CHR ''@''" s] by simp
  with ne obtain q where q: "dropWhile (\<lambda>c. c \<noteq> CHR ''@'') s = CHR ''@'' # q"
    by (cases "dropWhile (\<lambda>c. c \<noteq> CHR ''@'') s") auto
  have "s = takeWhile (\<lambda>c. c \<noteq> CHR ''@'') s @ dropWhile (\<lambda>c. c \<noteq> CHR ''@'') s" by simp
  with q have "s = takeWhile (\<lambda>c. c \<noteq> CHR ''@'') s @ CHR ''@'' # q" by simp
  moreover from a q have "CHR ''.'' \<in> set q" by simp
  ultimately show "\<exists>p q. s = p @ CHR ''@'' # q \<and> CHR ''.'' \<in> set q" by blast
qed

lemma strip_infix: "\<exists>a b. s = a @ strip s @ b"
proof -
  have "rev (dropWhile isspace (rev s)) @ rev (takeWhile isspace (rev s))
      = rev (takeWhile isspace (rev s) @ dropWhile isspace (rev s))"
    by (simp only: rev_append)
  also have "\<dots> = s" by simp
  finally have 1: "s = rstrip s @ rev (takeWhile isspace (rev s))"
    by (simp add: rstrip_def)
  have 2: "rstrip s = takeWhile isspace (rstrip s) @ strip s"
    by (simp add: strip_def lstrip_def)
  from 1 2 have "s = takeWhile isspace (rstrip s) @ strip s @ rev (takeWhile isspace (rev s))"
    by (metis append.assoc)
  then show ?thesis by blast
qed

section \<open>The format check\<close>

text \<open>
  C6. A string with no \<open>@\<close>, or with no dot after the \<open>@\<close> (no dot after its first \<open>@\<close>,
  which by \<open>dot_after_at\<close> is the same as no dot after any \<open>@\<close>), is rejected by the check
  of \<open>EmailVerifier\<close> and by the check of \<open>ExcelProcessor\<close>. Both checks are functions
  from strings to booleans: on a string there is no input on which they raise.
\<close>

theorem format_needs_at_and_dot:
  assumes "CHR ''@'' \<notin> set s \<or> CHR ''.'' \<notin> set (dropWhile (\<lambda>c. c \<noteq> CHR ''@'') s)"
  shows "\<not> ev_is_valid_email_format s \<and> \<not> is_valid_email_format s"
proof -
  have no: "\<not> (\<exists>p q. s = p @ CHR ''@'' # q \<and> CHR ''.'' \<in> set q)"
  proof
    assume ex: "\<exists>p q. s = p @ CHR ''@'' # q \<and> CHR ''.'' \<in> set q"
    then have "CHR ''.'' \<in> set (dropWhile (\<lambda>c. c \<noteq> CHR ''@'') s)" by (simp add: dot_after_at)
    moreover from ex have "CHR ''@'' \<in> set s" by auto
    ultimately show False using assms by simp
  qed
  have "\<not> ev_is_valid_email_format s"
  proof
    assume "ev_is_valid_email_format s"
    from valid_format_parts [OF this] no show False by blast
  qed
  moreover have "\<not> is_valid_email_format s"
  proof
    assume "is_valid_email_format s"
    then have "ev_is_valid_email_format (strip s)"
      by (simp add: is_valid_email_format_def ev_is_valid_email_format_def)
    from valid_format_parts [OF this] obtain l r
      where lr: "strip s = l @ CHR ''@'' # r" "CHR ''.'' \<in> set r" by blast
    obtain a b where "s = a @ strip s @ b" using strip_infix by blast
    with lr have "s = (a @ l) @ CHR ''@'' # (r @ b)" "CHR ''.'' \<in> set (r @ b)" by simp_all
    with no show False by blast
  qed
  ultimately show ?thesis by simp
qed

text \<open>The theorem at \<open>not-an-email\<close> (no \<open>@\<close>) and at \<open>a.b@com\<close> (no dot after the \<open>@\<close>).\<close>

theorem format_needs_at_and_dot_witness:
  "CHR ''@'' \<notin> set ''not-an-email''
   \<and> \<not> ev_is_valid_email_format ''not-an-email'' \<and> \<not> is_valid_email_format ''not-an-email''
   \<and> CHR ''.'' \<notin> set (dropWhile (\<lambda>c. c \<noteq> CHR ''@'') ''a.b@com'')
   \<and> \<not> ev_is_valid_email_format ''a.b@com'' \<and> \<not> is_valid_email_format ''a.b@com''"
  using format_needs_at_and_dot [of "''not-an-email''"] format_needs_at_and_dot [of "''a.b@com''"]
  by simp

section \<open>verify_email, stage by stage\<close>

lemma verify_email_invalid_format:
  "\<not> ev_is_valid_email_format email \<Longrightarrow> verify_email net self email = Inr (False, ''Invalid email format'')"
  by (simp add: verify_email_def verify_email_body_def)

lemma verify_email_valid_format:
  assumes "ev_is_valid_email_format email"
  shows "verify_email net self email =
     (case lookup_mx_record net (domain_of email) of
        Inl e \<Rightarrow> Inr (False, ''No MX record found for domain: '' @ domain_of email)
      | Inr mx_record \<Rightarrow>
          (case smtp_conversation net self mx_record email of
             Inr code \<Rightarrow> Inr (analyze_response_code code)
           | Inl smtp_e \<Rightarrow> Inr (smtp_except smtp_e)))"
proof -
  from valid_format_domain [OF assms] obtain d
    where "index (split CHR ''@'' email) 1 = Inr d" "lower d = domain_of email" by blast
  with assms show ?thesis
    by (simp add: verify_email_def verify_email_body_def split: sum.splits)
qed

lemma lookup_mx_record_fails:
  "resolve_MX net dn = Inl e \<Longrightarrow> lookup_mx_record net dn = Inl e"
  "resolve_MX net dn = Inr [] \<Longrightarrow>
     lookup_mx_record net dn = Inl (Exn IndexError ''list index out of range'')"
  by (simp_all add: lookup_mx_record_def index_def)

lemma lookup_mx_record_first:
  "resolve_MX net dn = Inr (r # rs) \<Longrightarrow> lookup_mx_record net dn = Inr (rstrip_dot (exchange r))"
  by (simp add: lookup_mx_record_def index_def)

lemma analyze_not_error: "snd (analyze_response_code code) \<noteq> ''error''"
  by (simp add: analyze_response_code_def)

lemma smtp_except_not_error: "snd (smtp_except e) \<noteq> ''error''"
  by (simp add: smtp_except_def)

lemma analyze_nonempty: "snd (analyze_response_code code) \<noteq> []"
  by (simp add: analyze_response_code_def)

lemma smtp_except_nonempty: "snd (smtp_except e) \<noteq> []" and smtp_except_False: "\<not> fst (smtp_except e)"
  by (simp_all add: smtp_except_def)

text \<open>
  No result of \<open>verify_email\<close> on a string has the details "error": the outer handler
  is never reached, so no row of app.py gets the status Error.
\<close>

lemma verify_email_details_not_error:
  "verify_email net self email = Inr (is_valid, details) \<Longrightarrow> details \<noteq> ''error''"
proof (cases "ev_is_valid_email_format email")
  case False
  assume "verify_email net self email = Inr (is_valid, details)"
  with False show ?thesis by (auto simp: verify_email_invalid_format)
next
  case True
  assume v: "verify_email net self email = Inr (is_valid, details)"
  show ?thesis
  proof (cases "lookup_mx_record net (domain_of email)")
    case (Inl e)
    with True v show ?thesis by (auto simp: verify_email_valid_format)
  next
    case (Inr mx_record)
    show ?thesis
    proof (cases "smtp_conversation net self mx_record email")
      case (Inl e)
      with True Inr v have "details = snd (smtp_except e)"
        by (auto simp: verify_email_valid_format)
      then show ?thesis using smtp_except_not_error by simp
    next
      case code: (Inr code)
      with True Inr v have "details = snd (analyze_response_code code)"
        by (auto simp: verify_email_valid_format)
      then show ?thesis using analyze_not_error by simp
    qed
  qed
qed

section \<open>The verdict of a probe\<close>

text \<open>
  C3. When the conversation reaches the recipient step and ends, the result of
  \<open>verify_email\<close> is fixed by the code of the reply to RCPT: 250 gives True with
  "Email address exists", 550, 552 and 553 give False with their own text, and every other
  code gives False with "SMTP error code: " followed by the code in decimal. In app.py the
  status is Valid for 250 and Invalid for every other code.
\<close>

theorem recipient_code_verdict:
  assumes "ev_is_valid_email_format email"
    and "lookup_mx_record net (domain_of email) = Inr mx_record"
    and "smtp_conversation net self mx_record email = Inr code"
  shows "verify_email net self email =
      Inr (if code = 250 then (True, ''Email address exists'')
           else if code = 550 then (False, ''Email address does not exist'')
           else if code = 552 then (False, ''Mailbox full or quota exceeded'')
           else if code = 553 then (False, ''Invalid email address'')
           else (False, ''SMTP error code: '' @ str_int code))
    \<and> (\<forall>is_valid details. verify_email net self email = Inr (is_valid, details) \<longrightarrow>
          verification_status is_valid details = (if code = 250 then Valid else Invalid))"
proof -
  have v: "verify_email net self email = Inr (analyze_response_code code)"
    using assms by (simp add: verify_email_valid_format)
  then show ?thesis
    by (auto simp: analyze_response_code_def verification_status_def)
qed

text \<open>
  The theorem at the code 451.
\<close>

theorem recipient_code_verdict_witness:
  "ev_is_valid_email_format ''a@b.com''
   \<and> lookup_mx_record (mock_net (Inr [\<lparr>preference = 10, exchange = ''mx.b.com.''\<rparr>]) (Inr []) (Inr ()) (Inr ((451, ''4.7.1 try again later''), ())))
        (domain_of ''a@b.com'') = Inr ''mx.b.com''
   \<and> smtp_conversation (mock_net (Inr [\<lparr>preference = 10, exchange = ''mx.b.com.''\<rparr>]) (Inr []) (Inr ()) (Inr ((451, ''4.7.1 try again later''), ())))
        default_verifier ''mx.b.com'' ''a@b.com'' = Inr 451
   \<and> verify_email (mock_net (Inr [\<lparr>preference = 10, exchange = ''mx.b.com.''\<rparr>]) (Inr []) (Inr ()) (Inr ((451, ''4.7.1 try again later''), ())))
        default_verifier ''a@b.com'' = Inr (False, ''SMTP error code: 451'')
   \<and> verification_status False ''SMTP error code: 451'' = Invalid"
proof -
  let ?net = "mock_net (Inr [\<lparr>preference = 10, exchange = ''mx.b.com.''\<rparr>]) (Inr []) (Inr ()) (Inr ((451, ''4.7.1 try again later''), ()))"
  have 1: "ev_is_valid_email_format ''a@b.com''" by code_simp
  have 2: "lookup_mx_record ?net (domain_of ''a@b.com'') = Inr ''mx.b.com''" by code_simp
  have 3: "smtp_conversation ?net default_verifier ''mx.b.com'' ''a@b.com'' = Inr 451" by code_simp
  have 4: "str_int 451 = ''451''" by code_simp
  from recipient_code_verdict [OF 1 2 3] 1 2 3 4 show ?thesis
    by (simp add: verification_status_def)
qed

text \<open>
  C7. For an address that passes the format check and whose MX query raises (whatever
  the exception: NXDOMAIN, NoAnswer, a timeout of the resolver) or gives no record, the
  result is False with "No MX record found for domain: " followed by the domain, and its
  status is Invalid.
\<close>

theorem resolution_failure_invalid:
  assumes "ev_is_valid_email_format email"
    and "resolve_MX net (domain_of email) = Inl e \<or> resolve_MX net (domain_of email) = Inr []"
  shows "verify_email net self email = Inr (False, ''No MX record found for domain: '' @ domain_of email)
    \<and> verification_status False (''No MX record found for domain: '' @ domain_of email) = Invalid"
proof -
  from assms(2) obtain e' where "lookup_mx_record net (domain_of email) = Inl e'"
    using lookup_mx_record_fails by blast
  with assms(1) show ?thesis
    by (simp add: verify_email_valid_format verification_status_def)
qed

text \<open>
  The theorem at an address whose domain has no MX record.
\<close>

theorem resolution_failure_invalid_witness:
  "ev_is_valid_email_format ''x@Nonexistent-Domain-xyz123.test''
   \<and> resolve_MX no_mx_net (domain_of ''x@Nonexistent-Domain-xyz123.test'')
       = Inl (Exn NoAnswer ''The DNS response does not contain an answer to the question'')
   \<and> verify_email no_mx_net default_verifier ''x@Nonexistent-Domain-xyz123.test''
       = Inr (False, ''No MX record found for domain: nonexistent-domain-xyz123.test'')
   \<and> verification_status False ''No MX record found for domain: nonexistent-domain-xyz123.test'' = Invalid"
proof -
  have 1: "ev_is_valid_email_format ''x@Nonexistent-Domain-xyz123.test''" by code_simp
  have 2: "resolve_MX no_mx_net (domain_of ''x@Nonexistent-Domain-xyz123.test'')
       = Inl (Exn NoAnswer ''The DNS response does not contain an answer to the question'')"
    by (simp add: no_mx_net_def mock_net_def)
  have 3: "domain_of ''x@Nonexistent-Domain-xyz123.test'' = ''nonexistent-domain-xyz123.test''"
    by code_simp
  from resolution_failure_invalid [OF 1 disjI1, OF 2, of default_verifier] 1 2 3 show ?thesis
    by simp
qed

text \<open>
  C10. \<open>verify_email\<close> returns True exactly when the address passes the format check,
  an MX host is found and the conversation ends with the code 250 at the recipient step;
  the details are then "Email address exists". Every other path returns False.
\<close>

theorem valid_only_on_250:
  "verify_email net self email = Inr (True, details) \<longleftrightarrow>
     details = ''Email address exists'' \<and> ev_is_valid_email_format email \<and>
     (\<exists>mx_record. lookup_mx_record net (domain_of email) = Inr mx_record \<and>
        smtp_conversation net self mx_record email = Inr 250)"
proof (cases "ev_is_valid_email_format email")
  case False
  then show ?thesis by (simp add: verify_email_invalid_format)
next
  case True
  show ?thesis
  proof (cases "lookup_mx_record net (domain_of email)")
    case (Inl e)
    with True show ?thesis by (simp add: verify_email_valid_format)
  next
    case (Inr mx_record)
    show ?thesis
    proof (cases "smtp_conversation net self mx_record email")
      case (Inl e)
      with True Inr show ?thesis
        by (simp add: verify_email_valid_format smtp_except_def)
    next
      case code: (Inr code)
      with True Inr show ?thesis
        by (auto simp: verify_email_valid_format analyze_response_code_def)
    qed
  qed
qed

text \<open>
  The theorem at a server that accepts the recipient.
\<close>

theorem valid_only_on_250_witness:
  "verify_email accepting_net default_verifier ''user@example.com'' = Inr (True, ''Email address exists'')
   \<and> ev_is_valid_email_format ''user@example.com''
   \<and> lookup_mx_record accepting_net (domain_of ''user@example.com'') = Inr ''mx.example.com''
   \<and> smtp_conversation accepting_net default_verifier ''mx.example.com'' ''user@example.com'' = Inr 250"
proof -
  have 1: "ev_is_valid_email_format ''user@example.com''" by code_simp
  have 2: "lookup_mx_record accepting_net (domain_of ''user@example.com'') = Inr ''mx.example.com''"
    by code_simp
  have 3: "smtp_conversation accepting_net default_verifier ''mx.example.com'' ''user@example.com'' = Inr 250"
    by code_simp
  from 1 2 3 valid_only_on_250 [of accepting_net default_verifier "''user@example.com''" "''Email address exists''"]
  show ?thesis by blast
qed






section \<open>Whitespace around an address\<close>

text \<open>
  C5. \<open>EmailVerifier._is_valid_email_format\<close> does not trim: with a leading space the
  check of \<open>ExcelProcessor\<close> accepts the string, the check of \<open>EmailVerifier\<close> rejects it,
  and the row that app.py let through is reported with "Invalid email format".
\<close>

theorem leading_space_rejected:
  "is_valid_email_format '' a@b.com''
   \<and> \<not> ev_is_valid_email_format '' a@b.com''
   \<and> verify_row accepting_net default_verifier '' a@b.com'' = Inr (Invalid, ''Invalid email format'')"
  by code_simp

lemma dropWhile_keeps:
  "xs \<noteq> [] \<Longrightarrow> \<not> P (hd xs) \<Longrightarrow> dropWhile P (xs @ ys) = xs @ ys"
  by (cases xs) auto

lemma strip_core:
  assumes "core \<noteq> []" and "\<not> isspace (hd core)" and "\<not> isspace (last core)"
    and "\<forall>c\<in>set a. isspace c" and "\<forall>c\<in>set b. isspace c"
  shows "strip (a @ core @ b) = core"
proof -
  have "dropWhile isspace (rev (a @ core @ b)) = dropWhile isspace (rev core @ rev a)"
    using assms(5) dropWhile_append2 [of "rev b" isspace "rev core @ rev a"] by simp
  also have "\<dots> = rev core @ rev a"
    using assms(1,3) by (intro dropWhile_keeps) (simp_all add: hd_rev)
  finally have "rstrip (a @ core @ b) = a @ core"
    by (simp add: rstrip_def)
  moreover have "dropWhile isspace (a @ core) = dropWhile isspace core"
    using assms(4) dropWhile_append2 [of a isspace core] by simp
  moreover have "dropWhile isspace core = core"
    using assms(1,2) dropWhile_keeps [of core isspace "[]"] by simp
  ultimately show ?thesis by (simp add: strip_def lstrip_def)
qed

lemma well_formed_ends:
  assumes "well_formed l d t"
  shows "\<not> isspace (hd (l @ CHR ''@'' # d @ CHR ''.'' # t))"
    and "\<not> isspace (last (l @ CHR ''@'' # d @ CHR ''.'' # t))"
proof -
  from assms have "l \<noteq> []" by (auto simp: well_formed_def)
  moreover from this assms have "in_cls local_ranges (hd l)"
    using hd_in_set [of l] by (simp add: well_formed_def)
  ultimately show "\<not> isspace (hd (l @ CHR ''@'' # d @ CHR ''.'' # t))"
    using isspace_not_local by auto
  from assms have "t \<noteq> []" by (auto simp: well_formed_def)
  moreover from this assms have "in_cls alpha_ranges (last t)"
    using last_in_set [of t] by (simp add: well_formed_def)
  ultimately show "\<not> isspace (last (l @ CHR ''@'' # d @ CHR ''.'' # t))"
    using isspace_not_alpha by auto
qed

text \<open>
  The check of \<open>ExcelProcessor\<close> does trim: whitespace around a string that the pattern
  accepts does not change the answer.
\<close>

lemma excel_check_trims:
  assumes "ev_is_valid_email_format s" and "\<forall>c\<in>set a. isspace c" and "\<forall>c\<in>set b. isspace c"
  shows "is_valid_email_format (a @ s @ b)"
proof -
  from assms(1) obtain l d t where wf: "well_formed l d t"
    and s: "s = l @ CHR ''@'' # d @ CHR ''.'' # t \<or> s = l @ CHR ''@'' # d @ CHR ''.'' # t @ [CHR 0x0A]"
    unfolding ev_valid_shape by blast
  let ?core = "l @ CHR ''@'' # d @ CHR ''.'' # t"
  from s obtain b' where b': "a @ s @ b = a @ ?core @ b'" "\<forall>c\<in>set b'. isspace c"
  proof
    assume "s = ?core"
    with assms(3) that [of b] show ?thesis by simp
  next
    assume "s = l @ CHR ''@'' # d @ CHR ''.'' # t @ [CHR 0x0A]"
    with assms(3) newline_isspace that [of "CHR 0x0A # b"] show ?thesis by simp
  qed
  have "strip (a @ ?core @ b') = ?core"
    using well_formed_ends [OF wf] assms(2) b'(2) by (intro strip_core) simp_all
  with b'(1) have "strip (a @ s @ b) = ?core" by simp
  moreover from wf have "ev_is_valid_email_format ?core"
    unfolding ev_valid_shape by blast
  ultimately show ?thesis
    by (simp add: is_valid_email_format_def ev_is_valid_email_format_def)
qed

section \<open>The mail exchangers of a domain\<close>

text \<open>
  \<open>rstrip('.')\<close> leaves no trailing dot and removes nothing but dots.
\<close>

lemma rstrip_dot_no_trailing_dot: "rstrip_dot s = [] \<or> last (rstrip_dot s) \<noteq> CHR ''.''"
proof (cases "dropWhile (\<lambda>c. c = CHR ''.'') (rev s)")
  case Nil
  then show ?thesis by (simp add: rstrip_dot_def)
next
  case (Cons x xs)
  then have "x \<noteq> CHR ''.''"
    using hd_dropWhile [of "\<lambda>c. c = CHR ''.''" "rev s"] by auto
  with Cons show ?thesis by (simp add: rstrip_dot_def)
qed

lemma rstrip_dot_only_dots: "\<exists>k. s = rstrip_dot s @ replicate k CHR ''.''"
proof -
  have "rev (dropWhile (\<lambda>c. c = CHR ''.'') (rev s)) @ rev (takeWhile (\<lambda>c. c = CHR ''.'') (rev s))
      = rev (takeWhile (\<lambda>c. c = CHR ''.'') (rev s) @ dropWhile (\<lambda>c. c = CHR ''.'') (rev s))"
    by (simp only: rev_append)
  also have "\<dots> = s" by simp
  finally have 1: "s = rstrip_dot s @ rev (takeWhile (\<lambda>c. c = CHR ''.'') (rev s))"
    by (simp add: rstrip_dot_def)
  have "\<forall>c\<in>set (rev (takeWhile (\<lambda>c. c = CHR ''.'') (rev s))). c = CHR ''.''"
    by (auto dest: set_takeWhileD)
  then have "rev (takeWhile (\<lambda>c. c = CHR ''.'') (rev s))
      = replicate (length (rev (takeWhile (\<lambda>c. c = CHR ''.'') (rev s)))) CHR ''.''"
    by (intro replicate_length_same [symmetric]) simp
  with 1 show ?thesis by metis
qed

text \<open>
  C4, as the code has it. When the MX query gives a non-empty answer, \<open>verify_email\<close>
  takes the first record of the answer as the resolver returned it, and
  \<open>get_domain_info\<close> lists the hosts in the order of the answer; no path sorts by
  preference. Every host name has its trailing dots removed.
\<close>

theorem mx_targets_in_answer_order:
  assumes "resolve_MX net dn = Inr answer" and "answer \<noteq> []"
  shows "lookup_mx_record net dn = Inr (rstrip_dot (exchange (hd answer)))
    \<and> (\<forall>email d. index (split CHR ''@'' email) 1 = Inr d \<and> lower d = dn \<longrightarrow>
          (\<exists>info. get_domain_info net email = Inr info \<and>
             mx_records info = map (\<lambda>record. rstrip_dot (exchange record)) answer))
    \<and> (\<forall>record \<in> set answer.
          rstrip_dot (exchange record) = [] \<or> last (rstrip_dot (exchange record)) \<noteq> CHR ''.'')"
proof -
  from assms(2) obtain r rs where "answer = r # rs" by (cases answer) auto
  with assms(1) have "lookup_mx_record net dn = Inr (rstrip_dot (exchange (hd answer)))"
    by (simp add: lookup_mx_record_first)
  moreover have "\<forall>email d. index (split CHR ''@'' email) 1 = Inr d \<and> lower d = dn \<longrightarrow>
          (\<exists>info. get_domain_info net email = Inr info \<and>
             mx_records info = map (\<lambda>record. rstrip_dot (exchange record)) answer)"
    using assms(1) by (auto simp: get_domain_info_def Let_def)
  ultimately show ?thesis using rstrip_dot_no_trailing_dot by blast
qed

text \<open>
  The theorem at an answer of two records, the higher preference value first.
\<close>

theorem mx_targets_in_answer_order_witness:
  "resolve_MX unsorted_net ''example.com'' = Inr unsorted_answer
   \<and> unsorted_answer \<noteq> []
   \<and> lookup_mx_record unsorted_net ''example.com'' = Inr ''mx2.example.com''
   \<and> index (split CHR ''@'' ''user@Example.com'') 1 = Inr ''Example.com''
   \<and> lower ''Example.com'' = ''example.com''
   \<and> (\<exists>info. get_domain_info unsorted_net ''user@Example.com'' = Inr info \<and>
         mx_records info = [''mx2.example.com'', ''mx1.example.com''])"
proof -
  have 1: "resolve_MX unsorted_net ''example.com'' = Inr unsorted_answer"
    by (simp add: unsorted_net_def mock_net_def)
  have 2: "unsorted_answer \<noteq> []" by (simp add: unsorted_answer_def)
  have 3: "index (split CHR ''@'' ''user@Example.com'') 1 = Inr ''Example.com''" by code_simp
  have 4: "lower ''Example.com'' = ''example.com''" by code_simp
  have 5: "map (\<lambda>record. rstrip_dot (exchange record)) unsorted_answer
      = [''mx2.example.com'', ''mx1.example.com'']" by code_simp
  have 6: "rstrip_dot (exchange (hd unsorted_answer)) = ''mx2.example.com''" by code_simp
  from mx_targets_in_answer_order [OF 1 2] 1 2 3 4 5 6 show ?thesis by metis
qed

text \<open>
  C4 as stated fails: on the answer (20, mx2), (10, mx1) the specification's resolver
  gives mx1 before mx2, while the code probes mx2 and lists mx2 before mx1.
\<close>

theorem mx_targets_sorted_counterexample:
  "resolve_MX unsorted_net ''example.com'' = Inr unsorted_answer
   \<and> resolveMailTargets_spec unsorted_answer = [''mx1.example.com'', ''mx2.example.com'']
   \<and> lookup_mx_record unsorted_net ''example.com'' = Inr ''mx2.example.com''
   \<and> map_sum id mx_records (get_domain_info unsorted_net ''user@example.com'')
       = Inr [''mx2.example.com'', ''mx1.example.com'']
   \<and> [''mx2.example.com'', ''mx1.example.com''] \<noteq> resolveMailTargets_spec unsorted_answer"
  by code_simp

section \<open>get_domain_info\<close>

text \<open>
  C9, as the code has it. \<open>get_domain_info\<close> always returns a record. An address
  without \<open>@\<close> gives empty lists and both flags false; otherwise each lookup answers for
  itself: a failed MX query gives an empty \<open>mx_records\<close> and \<open>has_mx = False\<close>, a failed A
  query gives an empty \<open>a_records\<close> and \<open>resolvable = False\<close>.
\<close>

theorem domain_info_never_raises:
  "\<exists>info. get_domain_info net email = Inr info
     \<and> (CHR ''@'' \<notin> set email \<longrightarrow>
          mx_records info = [] \<and> a_records info = [] \<and> \<not> has_mx info \<and> \<not> resolvable info)
     \<and> ((\<exists>e. resolve_MX net (domain info) = Inl e) \<longrightarrow> mx_records info = [] \<and> \<not> has_mx info)
     \<and> ((\<exists>e. resolve_A net (domain info) = Inl e) \<longrightarrow> a_records info = [] \<and> \<not> resolvable info)"
proof (cases "index (split CHR ''@'' email) 1")
  case (Inl e)
  then show ?thesis by (simp add: get_domain_info_def)
next
  case (Inr d)
  have "CHR ''@'' \<in> set email"
  proof (rule ccontr)
    assume "CHR ''@'' \<notin> set email"
    then have "split CHR ''@'' email = [email]" by (rule split_no_sep)
    with Inr show False by (simp add: index_def)
  qed
  with Inr show ?thesis
    by (auto simp: get_domain_info_def Let_def split: sum.splits)
qed

text \<open>
  The theorem at a domain whose MX query fails.
\<close>

theorem domain_info_never_raises_witness:
  "resolve_MX no_mx_net ''example.com''
     = Inl (Exn NoAnswer ''The DNS response does not contain an answer to the question'')
   \<and> (\<exists>info. get_domain_info no_mx_net ''user@example.com'' = Inr info \<and>
         domain info = ''example.com'' \<and> mx_records info = [] \<and> \<not> has_mx info)"
proof -
  have 1: "resolve_MX no_mx_net ''example.com''
     = Inl (Exn NoAnswer ''The DNS response does not contain an answer to the question'')"
    by (simp add: no_mx_net_def mock_net_def)
  have 2: "get_domain_info no_mx_net ''user@example.com''
     = Inr \<lparr>domain = ''example.com'', mx_records = [], a_records = [''93.184.216.34''],
            has_mx = False, resolvable = True, error = None\<rparr>"
    by code_simp
  from domain_info_never_raises [of no_mx_net "''user@example.com''"] 1 2 show ?thesis
    by auto
qed

text \<open>
  C9 as stated fails: the MX query fails, the A query succeeds, and the record has a
  non-empty \<open>a_records\<close> and \<open>resolvable = True\<close>.
\<close>

theorem domain_info_partial_failure_counterexample:
  "resolve_MX no_mx_net ''example.com''
     = Inl (Exn NoAnswer ''The DNS response does not contain an answer to the question'')
   \<and> get_domain_info no_mx_net ''user@example.com''
     = Inr \<lparr>domain = ''example.com'', mx_records = [], a_records = [''93.184.216.34''],
            has_mx = False, resolvable = True, error = None\<rparr>"
  by code_simp

section \<open>verify_email_batch\<close>

lemma first_occurrences_Nil: "first_occurrences [] = []"
  by (simp add: first_occurrences_def)

lemma remdups_snoc: "remdups (xs @ [x]) = filter (\<lambda>y. y \<noteq> x) (remdups xs) @ [x]"
  by (induction xs) auto

lemma first_occurrences_Cons:
  "first_occurrences (x # xs) = x # filter (\<lambda>y. y \<noteq> x) (first_occurrences xs)"
  by (simp add: first_occurrences_def remdups_snoc rev_filter)

lemma first_occurrences_distinct: "distinct xs \<Longrightarrow> first_occurrences xs = xs"
  by (simp add: first_occurrences_def distinct_remdups_id)

lemma first_occurrences_props:
  "distinct (first_occurrences xs)" "set (first_occurrences xs) = set xs"
  by (simp_all add: first_occurrences_def)

lemma keys_dict_set:
  "map fst (dict_set kvs k v) = (if k \<in> set (map fst kvs) then map fst kvs else map fst kvs @ [k])"
  by (induction kvs) (force split: if_splits)+

lemma set_dict_set: "set (dict_set kvs k v) \<subseteq> set kvs \<union> {(k, v)}"
  by (induction kvs) (auto split: if_splits)

lemma verify_email_total: "\<exists>is_valid details. verify_email net self email = Inr (is_valid, details)"
  by (cases "verify_email_body net self email") (auto simp: verify_email_def)

lemma batch_loop_keys:
  assumes "0 \<le> delay" and "emails \<noteq> []"
    and "\<forall>(k, r)\<in>set results. verify_email net self k = Inr r"
  shows "\<exists>res. batch_loop net self delay emails rest results = Inr res
      \<and> map fst res = map fst results @ filter (\<lambda>e. e \<notin> set (map fst results)) (first_occurrences rest)
      \<and> (\<forall>(k, r)\<in>set res. verify_email net self k = Inr r)"
  using assms(3)
proof (induction rest arbitrary: results)
  case Nil
  then show ?case by (simp add: first_occurrences_Nil)
next
  case (Cons email rest)
  from verify_email_total obtain is_valid details
    where v: "verify_email net self email = Inr (is_valid, details)" by blast
  let ?results' = "dict_set results email (is_valid, details)"
  have inv: "\<forall>(k, r)\<in>set ?results'. verify_email net self k = Inr r"
    using Cons.prems v set_dict_set [of results email "(is_valid, details)"] by auto
  from Cons.IH [OF inv] obtain res
    where res: "batch_loop net self delay emails rest ?results' = Inr res"
      "map fst res = map fst ?results' @
         filter (\<lambda>e. e \<notin> set (map fst ?results')) (first_occurrences rest)"
      "\<forall>(k, r)\<in>set res. verify_email net self k = Inr r"
    by blast
  have step: "batch_loop net self delay emails (email # rest) results = Inr res"
    using v res(1) assms(1,2) by (auto simp: index_last_def time_sleep_def Let_def)
  have keys: "map fst res = map fst results @
      filter (\<lambda>e. e \<notin> set (map fst results)) (first_occurrences (email # rest))"
  proof (cases "email \<in> set (map fst results)")
    case True
    then have "filter (\<lambda>e. e \<notin> set (map fst results)) (filter (\<lambda>y. y \<noteq> email) (first_occurrences rest))
        = filter (\<lambda>e. e \<notin> set (map fst results)) (first_occurrences rest)"
      by (auto intro: filter_cong)
    with True res(2) show ?thesis
      by (simp add: keys_dict_set first_occurrences_Cons)
  next
    case False
    have "filter (\<lambda>e. e \<notin> set (map fst results)) (filter (\<lambda>y. y \<noteq> email) (first_occurrences rest))
        = filter (\<lambda>e. e \<notin> set (map fst results @ [email])) (first_occurrences rest)"
      by (auto intro: filter_cong)
    with False res(2) show ?thesis
      by (simp add: keys_dict_set first_occurrences_Cons)
  qed
  from step keys res(3) show ?case by blast
qed

lemma tally_sum:
  "valid_count (tally p rs) + invalid_count (tally p rs) + error_count (tally p rs)
     = valid_count p + invalid_count p + error_count p + length rs"
  by (induction rs arbitrary: p) auto

text \<open>
  C2, as the code has it. With a delay of 0 the batch returns a dict with one record per
  distinct address, in the order of first occurrence, each record the result of
  \<open>verify_email\<close> on its address; for an input without repetition that is one record per
  input address, in input order. The counters of app.py (valid, invalid, error), run over
  the records, sum to the number of records; a format failure is counted as invalid.
\<close>

theorem batch_one_result_per_distinct_address:
  "\<exists>results. verify_email_batch net self emails 0 = Inr results
     \<and> map fst results = first_occurrences emails
     \<and> (\<forall>(email, r)\<in>set results. verify_email net self email = Inr r)
     \<and> (distinct emails \<longrightarrow> map fst results = emails \<and> length results = length emails)
     \<and> valid_count (tally zero_progress results) + invalid_count (tally zero_progress results)
         + error_count (tally zero_progress results) = length results"
proof (cases "emails = []")
  case True
  then show ?thesis
    by (simp add: verify_email_batch_def first_occurrences_Nil zero_progress_def)
next
  case False
  have "\<forall>(k, r)\<in>set ([] :: (string \<times> bool \<times> string) list). verify_email net self k = Inr r"
    by simp
  from batch_loop_keys [OF _ False this, of 0 emails] obtain res
    where res: "batch_loop net self 0 emails emails [] = Inr res"
      "map fst res = first_occurrences emails"
      "\<forall>(k, r)\<in>set res. verify_email net self k = Inr r"
    by auto
  have "distinct emails \<longrightarrow> map fst res = emails \<and> length res = length emails"
  proof
    assume "distinct emails"
    with res(2) have "map fst res = emails" by (simp add: first_occurrences_distinct)
    then show "map fst res = emails \<and> length res = length emails"
      using length_map [of fst res] by simp
  qed
  moreover have "valid_count (tally zero_progress res) + invalid_count (tally zero_progress res)
         + error_count (tally zero_progress res) = length res"
    by (simp add: tally_sum zero_progress_def)
  ultimately show ?thesis
    using res by (auto simp: verify_email_batch_def)
qed

text \<open>
  The theorem at an input of two different strings.
\<close>

theorem batch_one_result_per_distinct_address_witness:
  "distinct [''a@b.com'', ''not-an-email'']
   \<and> (\<exists>results. verify_email_batch nxdomain_net default_verifier [''a@b.com'', ''not-an-email''] 0
          = Inr results
        \<and> map fst results = [''a@b.com'', ''not-an-email''] \<and> length results = 2)"
proof -
  have d: "distinct [''a@b.com'', ''not-an-email'']" by simp
  from batch_one_result_per_distinct_address
         [of nxdomain_net default_verifier "[''a@b.com'', ''not-an-email'']"] d
  show ?thesis by auto
qed

text \<open>
  C2 as stated fails: an address given twice has one record in the result.
\<close>

theorem batch_duplicates_counterexample:
  "verify_email_batch nxdomain_net default_verifier [''a@b.com'', ''a@b.com''] 0
     = Inr [(''a@b.com'', False, ''No MX record found for domain: b.com'')]
   \<and> length [(''a@b.com'', False, ''No MX record found for domain: b.com'')]
     \<noteq> length [''a@b.com'', ''a@b.com'']"
  by code_simp

end
